theory Spec2Isabelle
  imports Complex_Main "HOL-Library.Word" "HOL-Library.Log_Nat"
begin

section \<open>C doubles: IEEE 754 binary64 with round-to-nearest, ties-to-even\<close>

text \<open>
  The sample transform of \<^verbatim>\<open>scale_record\<close> computes
  \<^verbatim>\<open>(int) rint(alpha + beta * ((double) v))\<close> in C doubles.  A double is modelled by
  the rational number it denotes, or one of the two infinities, or NaN.  The two signed
  zeros are identified: the program never divides, and both zeros compare equal to
  \<^verbatim>\<open>0.0\<close> and convert to the integer 0, so the sign of a zero is not observable.
  Every arithmetic operation returns the exact result rounded to the nearest
  representable value (53 significant bits, least exponent \<open>-1022\<close>, ties to the even
  significand), and overflows to an infinity from \<open>2 ^ 1024\<close> on.  The product and the
  sum are rounded one after the other, as an evaluation in double precision without a
  fused multiply-add does.
\<close>

datatype double = Finite rat | PInf | NInf | NaN

text \<open>\<open>ilog2 x\<close> is \<open>\<lfloor>log\<^sub>2 x\<rfloor>\<close> for a positive rational, computed from the bit lengths
  of numerator and denominator.\<close>

definition ilog2 :: "rat \<Rightarrow> int" where
  "ilog2 x = (case quotient_of x of (p, q) \<Rightarrow>
     let k = int (floorlog 2 (nat p)) - int (floorlog 2 (nat q))
     in if 2 powi k \<le> x then k else k - 1)"

text \<open>Rounding a rational to the nearest integer, ties to the even one (what
  \<^verbatim>\<open>rint\<close> does in the default rounding mode).\<close>

definition round_half_even :: "rat \<Rightarrow> int" where
  "round_half_even x = (let f = \<lfloor>x\<rfloor>; d = x - of_int f in
     if d < 1 / 2 then f
     else if 1 / 2 < d then f + 1
     else if even f then f else f + 1)"

definition round_double :: "rat \<Rightarrow> double" where
  "round_double x = (if x = 0 then Finite 0 else
     let e = max (ilog2 \<bar>x\<bar>) (- 1022);
         ulp = 2 powi (e - 52);
         y = of_int (round_half_even (x / ulp)) * ulp
     in if 2 ^ 1024 \<le> \<bar>y\<bar> then (if 0 < x then PInf else NInf) else Finite y)"

fun dmul :: "double \<Rightarrow> double \<Rightarrow> double" where
  "dmul NaN _ = NaN"
| "dmul _ NaN = NaN"
| "dmul (Finite a) (Finite b) = round_double (a * b)"
| "dmul (Finite a) PInf = (if a = 0 then NaN else if 0 < a then PInf else NInf)"
| "dmul (Finite a) NInf = (if a = 0 then NaN else if 0 < a then NInf else PInf)"
| "dmul PInf (Finite b) = (if b = 0 then NaN else if 0 < b then PInf else NInf)"
| "dmul NInf (Finite b) = (if b = 0 then NaN else if 0 < b then NInf else PInf)"
| "dmul PInf PInf = PInf"
| "dmul PInf NInf = NInf"
| "dmul NInf PInf = NInf"
| "dmul NInf NInf = PInf"

fun dadd :: "double \<Rightarrow> double \<Rightarrow> double" where
  "dadd NaN _ = NaN"
| "dadd _ NaN = NaN"
| "dadd (Finite a) (Finite b) = round_double (a + b)"
| "dadd (Finite a) PInf = PInf"
| "dadd (Finite a) NInf = NInf"
| "dadd PInf (Finite b) = PInf"
| "dadd NInf (Finite b) = NInf"
| "dadd PInf PInf = PInf"
| "dadd PInf NInf = NaN"
| "dadd NInf PInf = NaN"
| "dadd NInf NInf = NInf"

text \<open>\<^verbatim>\<open>rint\<close>: the nearest integer, as a double; infinities and NaN are returned as
  they are.\<close>

fun rint :: "double \<Rightarrow> double" where
  "rint (Finite x) = Finite (of_int (round_half_even x))"
| "rint d = d"

text \<open>\<^verbatim>\<open>(double) v\<close> for a 32-bit \<^verbatim>\<open>int\<close>: every such value is representable.\<close>

definition double_of_int :: "32 word \<Rightarrow> double" where
  "double_of_int v = Finite (of_int (sint v))"

text \<open>
  \<^verbatim>\<open>(int) d\<close>: the fraction is discarded (towards zero).  When the result does not fit a
  32-bit \<^verbatim>\<open>int\<close>, or \<open>d\<close> is an infinity or NaN, ISO C leaves the behaviour undefined;
  the value the platform's conversion delivers there is the parameter \<open>ovf\<close> (the x86
  conversion instructions deliver \<^verbatim>\<open>INT_MIN\<close>).
\<close>

definition trunc_rat :: "rat \<Rightarrow> int" where
  "trunc_rat x = (if 0 \<le> x then \<lfloor>x\<rfloor> else \<lceil>x\<rceil>)"

definition in_int_range :: "int \<Rightarrow> bool" where
  "in_int_range i \<longleftrightarrow> - (2 ^ 31) \<le> i \<and> i < 2 ^ 31"

fun int_of_double :: "(double \<Rightarrow> 32 word) \<Rightarrow> double \<Rightarrow> 32 word" where
  "int_of_double ovf (Finite x) =
     (if in_int_range (trunc_rat x) then word_of_int (trunc_rat x) else ovf (Finite x))"
| "int_of_double ovf d = ovf d"


section \<open>Records, configuration and the library calls\<close>

text \<open>
  \<^verbatim>\<open>MSRecord\<close> is libmseed's parsed record.  Only the fields the program reads or
  writes are named; \<^verbatim>\<open>channel\<close> is the \<^verbatim>\<open>char channel[11]\<close> array, \<^verbatim>\<open>datasamples\<close>
  is the buffer seen through the cast \<^verbatim>\<open>(int *) msr->datasamples\<close>, and
  \<^verbatim>\<open>numsamples\<close> is the library's count of the samples held in that buffer.
\<close>

record msrecord =
  channel :: "char list"
  starttime :: int
  samprate :: double
  samplecnt :: int
  sampletype :: char
  numsamples :: int
  datasamples :: "32 word list"

text \<open>The layout libmseed guarantees for a record it has unpacked: the channel code is
  an array of 11 characters, and \<^verbatim>\<open>numsamples\<close> is the number of samples in the buffer,
  which the \<^verbatim>\<open>int\<close> loop counter can reach.\<close>

definition wf_record :: "'a msrecord_scheme \<Rightarrow> bool" where
  "wf_record r \<longleftrightarrow> length (channel r) = 11 \<and>
     numsamples r = int (length (datasamples r)) \<and> length (datasamples r) < 2 ^ 31"

text \<open>The program's static variables \<^verbatim>\<open>orient\<close> (a \<^verbatim>\<open>char *\<close>, possibly \<^verbatim>\<open>NULL\<close>),
  \<^verbatim>\<open>alpha\<close> and \<^verbatim>\<open>beta\<close>.\<close>

record config =
  orient :: "string option"
  alpha :: double
  beta :: double

text \<open>\<^verbatim>\<open>*orient\<close>: the first character of the C string, its terminating NUL when the
  string is empty.\<close>

definition deref :: "string \<Rightarrow> char" where
  "deref s = (case s of [] \<Rightarrow> CHR 0x00 | c # _ \<Rightarrow> c)"

type_synonym block = "8 word list"

text \<open>
  What the program does not define itself: the conversion of an out-of-range double,
  and libmseed's encoder.  \<open>packgroup r\<close> stands for
  \<^verbatim>\<open>mst_addmsrtogroup\<close>, \<^verbatim>\<open>mst_printtracelist\<close> and \<^verbatim>\<open>mst_packgroup\<close> on a fresh
  group: the encoded 512-byte records it hands to \<^verbatim>\<open>record_handler\<close>, in order, and the
  value it stores in \<^verbatim>\<open>psamples\<close>.
\<close>

record libenv =
  cast_overflow :: "double \<Rightarrow> 32 word"
  packgroup :: "msrecord \<Rightarrow> block list \<times> int"

section \<open>\<^verbatim>\<open>scale_record\<close>\<close>

text \<open>The right-hand side of the assignment in the loop body:
  \<^verbatim>\<open>(int) rint(alpha + beta * ((double) ((int *) msr->datasamples)[n]))\<close>.\<close>

definition scale_sample :: "'a config_scheme \<Rightarrow> libenv \<Rightarrow> 32 word \<Rightarrow> 32 word" where
  "scale_sample c e v =
     int_of_double (cast_overflow e) (rint (dadd (alpha c) (dmul (beta c) (double_of_int v))))"

text \<open>\<^verbatim>\<open>for (n = 0; n < msr->numsamples; n++) data[n] = f(data[n]);\<close> entered with the
  current \<open>n\<close>.\<close>

function scale_loop :: "(32 word \<Rightarrow> 32 word) \<Rightarrow> int \<Rightarrow> int \<Rightarrow> 32 word list \<Rightarrow> 32 word list" where
  "scale_loop f n cnt ds =
     (if n < cnt then scale_loop f (n + 1) cnt (ds[nat n := f (ds ! nat n)]) else ds)"
  by pat_completeness auto
termination
  by (relation "measure (\<lambda>(f, n, cnt, ds). nat (cnt - n))") auto

declare scale_loop.simps [simp del]

text \<open>\<^verbatim>\<open>return psamples;\<close> converts a \<^verbatim>\<open>long\<close> to the \<^verbatim>\<open>int\<close> result.\<close>

definition int_of_long :: "int \<Rightarrow> int" where
  "int_of_long l = sint (word_of_int l :: 32 word)"

text \<open>
  \<open>scale_record c e alloc r\<close> returns the \<^verbatim>\<open>int\<close> result, the record as the call leaves
  it, and the blocks passed to \<^verbatim>\<open>record_handler\<close>.  \<open>alloc\<close> tells whether
  \<^verbatim>\<open>mst_initgroup(NULL)\<close> returns a group in this call.  The function is the same in
  the batch and in the streaming program.  What \<^verbatim>\<open>record_handler\<close> does with a block
  has no influence on the result and is described further down.
\<close>

definition scale_record ::
  "'a config_scheme \<Rightarrow> libenv \<Rightarrow> bool \<Rightarrow> msrecord \<Rightarrow> int \<times> msrecord \<times> block list" where
  "scale_record c e alloc r =
     (if samplecnt r < 1 then (0, r, [])
      else if sampletype r \<noteq> CHR ''i'' then (0, r, [])
      else if samprate r = Finite 0 then (0, r, [])
      else
        let r1 = (case orient c of None \<Rightarrow> r
                  | Some s \<Rightarrow> r\<lparr>channel := (channel r)[2 := deref s]\<rparr>);
            r2 = r1\<lparr>datasamples :=
                   scale_loop (scale_sample c e) 0 (numsamples r1) (datasamples r1)\<rparr>
        in if \<not> alloc then (- 1, r2, [])
           else (case packgroup e r2 of (blocks, psamples) \<Rightarrow> (int_of_long psamples, r2, blocks)))"

text \<open>The eligibility conditions as the specification words them.\<close>

definition eligible :: "msrecord \<Rightarrow> bool" where
  "eligible r \<longleftrightarrow> 1 \<le> samplecnt r \<and> sampletype r = CHR ''i'' \<and> samprate r \<noteq> Finite 0"

section \<open>The batch program\<close>

text \<open>
  \<^verbatim>\<open>record_handler\<close> of the batch program writes each block to standard output with
  \<^verbatim>\<open>fwrite\<close>; a failed write is logged and nothing else happens.  The inner loop of
  \<^verbatim>\<open>main\<close> reads records from one input until \<^verbatim>\<open>ms_readmsr\<close> stops delivering and
  leaves the loop when \<^verbatim>\<open>scale_record\<close> returns a negative value.  An input is the list
  of records read from it, each with the outcome of \<^verbatim>\<open>mst_initgroup\<close> in its iteration;
  the result is the sequence of blocks given to \<^verbatim>\<open>fwrite\<close>.
\<close>

fun msscale_input :: "'a config_scheme \<Rightarrow> libenv \<Rightarrow> (msrecord \<times> bool) list \<Rightarrow> block list" where
  "msscale_input c e [] = []"
| "msscale_input c e ((r, alloc) # rest) =
     (case scale_record c e alloc r of (ret, r', blocks) \<Rightarrow>
        if ret < 0 then blocks else blocks @ msscale_input c e rest)"

text \<open>The outer \<^verbatim>\<open>do ... while ((++optind) < argc)\<close> over the inputs.\<close>

definition msscale_main :: "'a config_scheme \<Rightarrow> libenv \<Rightarrow> (msrecord \<times> bool) list list \<Rightarrow> block list" where
  "msscale_main c e inputs = concat (map (msscale_input c e) inputs)"

section \<open>The streaming program: the collection loop\<close>

record slconfig = config +
  statefile :: "string option"
  stateint :: int

text \<open>
  What \<^verbatim>\<open>msr_unpack (..., &msr, 1, 1)\<close> does with a packet: it succeeds and stores the
  record, or fails before it touches \<^verbatim>\<open>msr\<close>, or fails after it has stored a partly
  filled record.
\<close>

datatype unpacked = Unpack_ok msrecord | Unpack_failed_early | Unpack_failed_late msrecord

record slpacket =
  is_data :: bool
  payload :: unpacked
  alloc_ok :: bool

fun msr_unpack :: "unpacked \<Rightarrow> msrecord option \<Rightarrow> bool \<times> msrecord option" where
  "msr_unpack (Unpack_ok r) p = (True, Some r)"
| "msr_unpack Unpack_failed_early p = (False, p)"
| "msr_unpack (Unpack_failed_late r) p = (False, Some r)"

text \<open>libmseed's \<^verbatim>\<open>msr_free (MSRecord **ppmsr)\<close> releases the record and stores
  \<^verbatim>\<open>NULL\<close> in \<^verbatim>\<open>*ppmsr\<close>.\<close>

definition msr_free :: "msrecord option \<Rightarrow> msrecord option" where
  "msr_free p = None"

text \<open>\<^verbatim>\<open>scale_record\<close> reads \<^verbatim>\<open>msr->samplecnt\<close> first: with a null pointer the process
  faults, which is the result \<open>None\<close>.\<close>

definition scale_record_ptr ::
  "'a config_scheme \<Rightarrow> libenv \<Rightarrow> bool \<Rightarrow> msrecord option
     \<Rightarrow> (int \<times> msrecord \<times> block list) option" where
  "scale_record_ptr c e alloc p = (case p of None \<Rightarrow> None | Some r \<Rightarrow> Some (scale_record c e alloc r))"

text \<open>
  The state of the loop in \<^verbatim>\<open>main\<close>: the local pointer \<^verbatim>\<open>msr\<close> (\<open>None\<close> is
  \<^verbatim>\<open>NULL\<close>), the counter \<^verbatim>\<open>packetcnt\<close>, the number of calls of \<^verbatim>\<open>sl_savestate\<close> so
  far, and the blocks passed to \<^verbatim>\<open>record_handler\<close> so far.  A step leaves the loop
  running, or leaves it through \<^verbatim>\<open>break\<close>, or faults.
\<close>

record slstate =
  msr :: "msrecord option"
  packetcnt :: int
  saves :: nat
  handled :: "block list"

datatype status = Running | Broke | Crashed

text \<open>The pointer \<^verbatim>\<open>main\<close> passes to \<^verbatim>\<open>scale_record\<close> for a packet.\<close>

definition scale_arg :: "slpacket \<Rightarrow> slstate \<Rightarrow> msrecord option" where
  "scale_arg pk st = snd (msr_unpack (payload pk) (msr st))"

text \<open>\<^verbatim>\<open>if (statefile && stateint) { if (++packetcnt >= stateint) { sl_savestate (...);
  packetcnt = 0; } }\<close>\<close>

definition save_state :: "'a slconfig_scheme \<Rightarrow> slstate \<Rightarrow> slstate" where
  "save_state c st =
     (if statefile c \<noteq> None \<and> stateint c \<noteq> 0 then
        (if packetcnt st + 1 \<ge> stateint c
         then st\<lparr>packetcnt := 0, saves := saves st + 1\<rparr>
         else st\<lparr>packetcnt := packetcnt st + 1\<rparr>)
      else st)"

text \<open>One pass through the body of \<^verbatim>\<open>while (sl_collect (slconn, &slpack))\<close>.\<close>

definition sl_step :: "'a slconfig_scheme \<Rightarrow> libenv \<Rightarrow> slpacket \<Rightarrow> slstate \<Rightarrow> status \<times> slstate" where
  "sl_step c e pk st =
     (let p = scale_arg pk st in
      if is_data pk then
        (case scale_record_ptr c e (alloc_ok pk) p of
           None \<Rightarrow> (Crashed, st\<lparr>msr := p\<rparr>)
         | Some (ret, r', blocks) \<Rightarrow>
             let st' = st\<lparr>msr := msr_free (Some r'), handled := handled st @ blocks\<rparr>
             in if ret < 0 then (Broke, st') else (Running, save_state c st'))
      else (Running, save_state c (st\<lparr>msr := msr_free p\<rparr>)))"

text \<open>The loop over the packets \<^verbatim>\<open>sl_collect\<close> delivers; \<open>Running\<close> for the whole list
  says that every packet has passed through the loop body.\<close>

fun sl_loop :: "'a slconfig_scheme \<Rightarrow> libenv \<Rightarrow> slpacket list \<Rightarrow> slstate \<Rightarrow> status \<times> slstate" where
  "sl_loop c e [] st = (Running, st)"
| "sl_loop c e (pk # pks) st =
     (case sl_step c e pk st of
        (Running, st') \<Rightarrow> sl_loop c e pks st'
      | (stop, st') \<Rightarrow> (stop, st'))"

definition sl_init :: slstate where
  "sl_init = \<lparr>msr = None, packetcnt = 0, saves = 0, handled = []\<rparr>"

text \<open>
  \<^verbatim>\<open>main\<close> from the loop on: the packets \<^verbatim>\<open>sl_collect\<close> delivers before it returns 0,
  and \<open>terminate\<close>, the value of \<^verbatim>\<open>slconn->terminate\<close> when the loop has been left
  (\<^verbatim>\<open>if (statefile && slconn->terminate) sl_savestate (...)\<close>).  A faulted process
  does not reach the closing code.
\<close>

definition slscale_main ::
  "'a slconfig_scheme \<Rightarrow> libenv \<Rightarrow> slpacket list \<Rightarrow> bool \<Rightarrow> status \<times> slstate" where
  "slscale_main c e pks terminate =
     (case sl_loop c e pks sl_init of
        (Crashed, st) \<Rightarrow> (Crashed, st)
      | (stop, st) \<Rightarrow>
          (stop, if statefile c \<noteq> None \<and> terminate then st\<lparr>saves := saves st + 1\<rparr> else st))"

section \<open>The streaming program: \<^verbatim>\<open>record_handler\<close>\<close>

text \<open>
  The calls \<^verbatim>\<open>record_handler\<close> makes that reach outside the process.  One \<open>attempt\<close>
  holds what the environment answers during one evaluation of the loop condition
  \<^verbatim>\<open>dl_write (...) < 0\<close> and of the body that follows a failed write: whether the write
  succeeds, whether \<^verbatim>\<open>dlconn->link != -1\<close> after it, whether \<^verbatim>\<open>dl_connect\<close> succeeds,
  and whether \<^verbatim>\<open>slconn->terminate\<close> is set when the body tests it.
\<close>

datatype action = Fwrite | Dl_write | Dl_disconnect | Dl_connect | Sleep nat

datatype delivery = Written | Dropped | Delivered | Abandoned | Retrying

record attempt =
  write_ok :: bool
  link_up :: bool
  connect_ok :: bool
  terminate_seen :: bool

text \<open>
  The \<^verbatim>\<open>while\<close> loop.  The list of attempts bounds the run: when it is used up and
  the loop has not been left, the result is \<open>Retrying\<close>.
\<close>

fun dl_write_loop :: "attempt list \<Rightarrow> action list \<times> delivery" where
  "dl_write_loop [] = ([], Retrying)"
| "dl_write_loop (a # as) =
     (if write_ok a then ([Dl_write], Delivered)
      else
        let body = (if link_up a then [Dl_disconnect] else []) @
                   (if connect_ok a then [Dl_connect] else [Dl_connect, Sleep 10])
        in if terminate_seen a then (Dl_write # body, Abandoned)
           else (case dl_write_loop as of (acts, d) \<Rightarrow> (Dl_write # body @ acts, d)))"

text \<open>\<open>datalink\<close> is the static \<^verbatim>\<open>datalink\<close> pointer; \<open>header_ok\<close> tells whether
  \<^verbatim>\<open>msr_unpack (record, reclen, &msr, 0, 0)\<close> succeeds on the block.\<close>

definition record_handler :: "string option \<Rightarrow> bool \<Rightarrow> attempt list \<Rightarrow> action list \<times> delivery" where
  "record_handler datalink header_ok attempts =
     (case datalink of
        None \<Rightarrow> ([Fwrite], Written)
      | Some d \<Rightarrow> if \<not> header_ok then ([], Dropped) else dl_write_loop attempts)"

text \<open>What the specification says one round of the reconnect loop does after a failed
  submission: disconnect if connected, reconnect, and sleep ten seconds when the
  reconnect fails.\<close>

definition reconnect_round :: "attempt \<Rightarrow> action list" where
  "reconnect_round a =
     Dl_write # (if link_up a then [Dl_disconnect] else []) @ [Dl_connect] @
       (if connect_ok a then [] else [Sleep 10])"

definition failing :: "attempt \<Rightarrow> bool" where
  "failing a \<longleftrightarrow> \<not> write_ok a \<and> \<not> terminate_seen a"

section \<open>Example data\<close>

definition ex_env :: libenv where
  "ex_env = \<lparr>cast_overflow = (\<lambda>d. 0x80000000),
             packgroup = (\<lambda>r. ([[0x30, 0x30]], int (length (datasamples r))))\<rparr>"

definition ex_config :: config where
  "ex_config = \<lparr>orient = Some ''T'', alpha = Finite 10, beta = Finite 2\<rparr>"

definition unit_config :: config where
  "unit_config = \<lparr>orient = Some ''E'', alpha = Finite 0, beta = Finite 1\<rparr>"

definition half_config :: config where
  "half_config = \<lparr>orient = None, alpha = Finite (1 / 2), beta = Finite 1\<rparr>"

definition ex_record :: msrecord where
  "ex_record = \<lparr>channel = ''BHZ'' @ replicate 8 (CHR 0x00), starttime = 0,
                samprate = Finite 100, samplecnt = 3, sampletype = CHR ''i'',
                numsamples = 3, datasamples = [1, 2, 3]\<rparr>"

definition float_record :: msrecord where
  "float_record = ex_record\<lparr>sampletype := CHR ''f''\<rparr>"

definition wide_record :: msrecord where
  "wide_record = ex_record\<lparr>samplecnt := 4, numsamples := 4,
     datasamples := [0, - 5, 2147483647, - 2147483648]\<rparr>"

definition ex_slconfig :: slconfig where
  "ex_slconfig = \<lparr>orient = Some ''T'', alpha = Finite 0, beta = Finite 10,
                  statefile = Some ''slscale.state'', stateint = 2\<rparr>"

definition data_packet :: slpacket where
  "data_packet = \<lparr>is_data = True, payload = Unpack_ok ex_record, alloc_ok = True\<rparr>"

definition info_packet :: slpacket where
  "info_packet = \<lparr>is_data = False, payload = Unpack_failed_early, alloc_ok = True\<rparr>"

definition bad_packet :: slpacket where
  "bad_packet = \<lparr>is_data = True, payload = Unpack_failed_early, alloc_ok = True\<rparr>"

definition after_one :: slstate where
  "after_one = \<lparr>msr = None, packetcnt = 1, saves = 0, handled = [[0x30, 0x30]]\<rparr>"

definition after_five :: slstate where
  "after_five = \<lparr>msr = None, packetcnt = 1, saves = 2, handled = replicate 5 [0x30, 0x30]\<rparr>"

definition failed :: attempt where
  "failed = \<lparr>write_ok = False, link_up = True, connect_ok = False, terminate_seen = False\<rparr>"

definition succeeded :: attempt where
  "succeeded = \<lparr>write_ok = True, link_up = True, connect_ok = True, terminate_seen = False\<rparr>"

definition interrupted :: attempt where
  "interrupted = \<lparr>write_ok = False, link_up = False, connect_ok = False, terminate_seen = True\<rparr>"

section \<open>Exactly representable results\<close>

lemma powi_less_cancel: "(2::rat) powi a < 2 powi b \<Longrightarrow> a < b"
  using power_int_increasing[of b a "2::rat"] by (cases "a < b") simp_all

lemma nat_bitlen_bounds:
  assumes "0 < (p::int)"
  shows "(2::rat) powi (int (floorlog 2 (nat p)) - 1) \<le> of_int p"
    and "of_int p < (2::rat) powi (int (floorlog 2 (nat p)))"
proof -
  let ?b = "floorlog 2 (nat p)"
  from assms have np: "0 < nat p" by simp
  from floorlog_bounds[OF np, of 2]
  have lo: "2 ^ (?b - 1) \<le> nat p" and hi: "nat p < 2 ^ ?b" by simp_all
  have bpos: "0 < ?b"
    using np by (simp add: floorlog_eq_zero_iff Suc_le_eq not_le flip: neq0_conv)
  from lo have "int (2 ^ (?b - 1)) \<le> int (nat p)" by (simp only: of_nat_le_iff)
  then have "(2::int) ^ (?b - 1) \<le> p" using assms by simp
  then have "(of_int ((2::int) ^ (?b - 1)) :: rat) \<le> of_int p"
    by (simp only: of_int_le_iff)
  then have "(2::rat) ^ (?b - 1) \<le> of_int p" by simp
  then have "(2::rat) powi (int (?b - 1)) \<le> of_int p"
    by (simp only: power_int_of_nat)
  moreover have "int (?b - 1) = int ?b - 1" using bpos by simp
  ultimately show "(2::rat) powi (int ?b - 1) \<le> of_int p"
    by (simp only:)
  from hi have "int (nat p) < int (2 ^ ?b)" by (simp only: of_nat_less_iff)
  then have "p < (2::int) ^ ?b" using assms by simp
  then have "(of_int p :: rat) < of_int ((2::int) ^ ?b)"
    by (simp only: of_int_less_iff)
  then have "of_int p < (2::rat) ^ ?b" by simp
  then show "of_int p < (2::rat) powi (int ?b)"
    by (simp only: power_int_of_nat)
qed

lemma powi2_add: "(2::rat) powi (a + b) = 2 powi a * 2 powi b"
  by (rule power_int_add) simp

lemma ilog2_bounds:
  assumes "0 < x"
  shows "2 powi (ilog2 x) \<le> x \<and> x < 2 powi (ilog2 x + 1)"
proof -
  obtain p q where pq: "quotient_of x = (p, q)" by (cases "quotient_of x")
  then have q: "0 < q" and x: "x = of_int p / of_int q"
    by (simp_all add: quotient_of_denom_pos quotient_of_div)
  from assms x q have p: "0 < p"
    by (simp add: zero_less_divide_iff)
  define bp where "bp = int (floorlog 2 (nat p))"
  define bq where "bq = int (floorlog 2 (nat q))"
  define k where "k = bp - bq"
  have qr: "(0::rat) < of_int q" using q by simp
  have P: "(2::rat) powi (bp - 1) \<le> of_int p" "of_int p < (2::rat) powi bp"
    unfolding bp_def by (rule nat_bitlen_bounds[OF p])+
  have Q: "(2::rat) powi (bq - 1) \<le> of_int q" "of_int q < (2::rat) powi bq"
    unfolding bq_def by (rule nat_bitlen_bounds[OF q])+
  have lo: "2 powi (k - 1) < x"
  proof -
    have "2 powi (k - 1) * of_int q < (2::rat) powi (k - 1) * 2 powi bq"
      using Q(2) by (simp add: zero_less_power_int)
    also have "\<dots> = 2 powi ((k - 1) + bq)" by (simp only: powi2_add)
    also have "(k - 1) + bq = bp - 1" by (simp add: k_def)
    also note P(1)
    finally show ?thesis using qr by (simp add: x pos_less_divide_eq)
  qed
  have hi: "x < 2 powi (k + 1)"
  proof -
    note P(2)
    also have "bp = (k + 1) + (bq - 1)" by (simp add: k_def)
    also have "(2::rat) powi ((k + 1) + (bq - 1)) = 2 powi (k + 1) * 2 powi (bq - 1)"
      by (simp only: powi2_add)
    also have "\<dots> \<le> 2 powi (k + 1) * of_int q"
      using Q(1) by (simp add: zero_less_power_int)
    finally show ?thesis using qr by (simp add: x pos_divide_less_eq)
  qed
  have il: "ilog2 x = (if 2 powi k \<le> x then k else k - 1)"
    by (simp add: ilog2_def pq k_def bp_def bq_def)
  show ?thesis
  proof (cases "2 powi k \<le> x")
    case True
    with hi il show ?thesis by simp
  next
    case False
    with lo il show ?thesis by simp
  qed
qed

lemma round_half_even_of_int: "round_half_even (of_int k) = k"
  by (simp add: round_half_even_def)

lemma round_double_exact:
  assumes x: "x = of_int m * 2 powi t" and m: "\<bar>m\<bar> < 2 ^ 53"
    and t: "- 1074 \<le> t" "t \<le> 971"
  shows "round_double x = Finite x"
proof (cases "x = 0")
  case True
  then show ?thesis by (simp add: round_double_def)
next
  case False
  then have ax: "0 < \<bar>x\<bar>" by simp
  define e where "e = max (ilog2 \<bar>x\<bar>) (- 1022)"
  have axm: "\<bar>x\<bar> = of_int \<bar>m\<bar> * 2 powi t"
    by (simp add: x abs_mult)
  have "(of_int \<bar>m\<bar> :: rat) < of_int (2 ^ 53)"
    using m by (simp only: of_int_less_iff)
  then have "of_int \<bar>m\<bar> < (2::rat) ^ 53" by simp
  then have "of_int \<bar>m\<bar> < (2::rat) powi 53" by simp
  then have "\<bar>x\<bar> < 2 powi 53 * 2 powi t"
    unfolding axm by (rule mult_strict_right_mono) simp
  then have xlt: "\<bar>x\<bar> < 2 powi (53 + t)" by (simp only: powi2_add)
  have "2 powi (ilog2 \<bar>x\<bar>) \<le> \<bar>x\<bar>" using ilog2_bounds[OF ax] by simp
  with xlt have "(2::rat) powi (ilog2 \<bar>x\<bar>) < 2 powi (53 + t)" by simp
  then have "ilog2 \<bar>x\<bar> < 53 + t" by (rule powi_less_cancel)
  then have et: "e - 52 \<le> t" using t by (simp add: e_def)
  define s where "s = nat (t - (e - 52))"
  have ts: "t = (e - 52) + int s" using et by (simp add: s_def)
  have p2: "(2::rat) powi t = 2 powi (e - 52) * 2 ^ s"
    by (subst ts) (simp only: powi2_add power_int_of_nat)
  have nz: "(2::rat) powi (e - 52) \<noteq> 0" by simp
  have "x / 2 powi (e - 52) = of_int (m * 2 ^ s)"
    using nz by (simp add: x p2)
  then have y: "of_int (round_half_even (x / 2 powi (e - 52))) * 2 powi (e - 52) = x"
    by (simp only: round_half_even_of_int) (simp add: x p2)
  have "53 + t \<le> 1024" using t by simp
  then have "(2::rat) powi (53 + t) \<le> 2 powi 1024"
    by (rule power_int_increasing) simp
  with xlt have "\<bar>x\<bar> < 2 powi 1024" by simp
  then have big: "\<not> 2 ^ 1024 \<le> \<bar>x\<bar>" by (simp only: power_int_numeral not_le)
  have "round_double x = (let e = max (ilog2 \<bar>x\<bar>) (- 1022);
         ulp = 2 powi (e - 52);
         y = of_int (round_half_even (x / ulp)) * ulp
     in if 2 ^ 1024 \<le> \<bar>y\<bar> then (if 0 < x then PInf else NInf) else Finite y)"
    using False by (simp only: round_double_def if_False)
  also have "\<dots> = (if 2 ^ 1024 \<le> \<bar>x\<bar> then (if 0 < x then PInf else NInf) else Finite x)"
    unfolding Let_def e_def[symmetric] y ..
  also have "\<dots> = Finite x" using big by (simp only: if_False)
  finally show ?thesis .
qed

lemma round_double_of_int: "\<bar>n\<bar> < 2 ^ 53 \<Longrightarrow> round_double (of_int n) = Finite (of_int n)"
  using round_double_exact[of "of_int n" n 0] by simp

section \<open>The sample loop and the per-sample map\<close>

lemma scale_loop_length: "length (scale_loop f n cnt ds) = length ds"
proof (induction f n cnt ds rule: scale_loop.induct)
  case (1 f n cnt ds)
  then show ?case by (subst scale_loop.simps) simp
qed

lemma scale_loop_nth:
  "0 \<le> n \<Longrightarrow> cnt \<le> int (length ds) \<Longrightarrow> i < length ds \<Longrightarrow>
   scale_loop f n cnt ds ! i = (if nat n \<le> i \<and> int i < cnt then f (ds ! i) else ds ! i)"
proof (induction f n cnt ds rule: scale_loop.induct)
  case (1 f n cnt ds)
  show ?case
  proof (cases "n < cnt")
    case False
    with "1.prems" show ?thesis by (subst scale_loop.simps) auto
  next
    case True
    let ?ds = "ds[nat n := f (ds ! nat n)]"
    have IH: "scale_loop f (n + 1) cnt ?ds ! i =
        (if nat (n + 1) \<le> i \<and> int i < cnt then f (?ds ! i) else ?ds ! i)"
      using "1.IH"[OF True] "1.prems" by simp
    have step: "scale_loop f n cnt ds = scale_loop f (n + 1) cnt ?ds"
      using True by (subst scale_loop.simps) simp
    show ?thesis
    proof (cases "i = nat n")
      case True
      with \<open>n < cnt\<close> "1.prems" show ?thesis
        unfolding step IH by (simp add: nat_add_distrib)
    next
      case False
      with \<open>n < cnt\<close> "1.prems" show ?thesis
        unfolding step IH by (auto simp: nat_add_distrib)
    qed
  qed
qed

lemma scale_loop_all:
  assumes "cnt = int (length ds)"
  shows "scale_loop f 0 cnt ds = map f ds"
proof (rule nth_equalityI)
  show "length (scale_loop f 0 cnt ds) = length (map f ds)"
    by (simp add: scale_loop_length)
next
  fix i assume "i < length (scale_loop f 0 cnt ds)"
  then have i: "i < length ds" by (simp add: scale_loop_length)
  then have "scale_loop f 0 cnt ds ! i = f (ds ! i)"
    using assms by (subst scale_loop_nth) simp_all
  with i show "scale_loop f 0 cnt ds ! i = map f ds ! i" by simp
qed

lemma scale_record_ineligible: "\<not> eligible r \<Longrightarrow> scale_record c e a r = (0, r, [])"
  by (auto simp: eligible_def scale_record_def)

lemma scale_record_eligible:
  "eligible r \<Longrightarrow> fst (snd (scale_record c e a r)) =
     (case orient c of None \<Rightarrow> r | Some s \<Rightarrow> r\<lparr>channel := (channel r)[2 := deref s]\<rparr>)
       \<lparr>datasamples := scale_loop (scale_sample c e) 0 (numsamples r) (datasamples r)\<rparr>"
  by (auto simp: eligible_def scale_record_def Let_def split: option.splits prod.splits)

lemma round_half_even_near:
  "\<bar>of_int (round_half_even x) - x\<bar> \<le> 1 / 2 \<and>
   (\<bar>of_int (round_half_even x) - x\<bar> = 1 / 2 \<longrightarrow> even (round_half_even x))"
proof -
  define f where "f = \<lfloor>x\<rfloor>"
  define d where "d = x - of_int f"
  define k where "k = round_half_even x"
  have d: "0 \<le> d" "d < 1" unfolding d_def f_def by linarith+
  have x: "x = of_int f + d" by (simp add: d_def)
  have r: "k = (if d < 1 / 2 then f else if 1 / 2 < d then f + 1
      else if even f then f else f + 1)"
    by (simp add: k_def round_half_even_def Let_def f_def d_def)
  have "\<bar>of_int k - x\<bar> \<le> 1 / 2 \<and> (\<bar>of_int k - x\<bar> = 1 / 2 \<longrightarrow> even k)"
    using d unfolding r x by (auto simp: abs_if)
  then show ?thesis unfolding k_def .
qed

lemma trunc_rat_of_int: "trunc_rat (of_int k) = k"
  by (simp add: trunc_rat_def)

lemma scale_sample_in_range:
  assumes "dadd (alpha c) (dmul (beta c) (double_of_int v)) = Finite x"
    and "in_int_range (round_half_even x)"
  shows "sint (scale_sample c e v) = round_half_even x"
proof -
  have "scale_sample c e v = word_of_int (round_half_even x)"
    using assms by (simp add: scale_sample_def trunc_rat_of_int)
  moreover have "sint (word_of_int (round_half_even x) :: 32 word) = round_half_even x"
    using assms(2) by (simp add: in_int_range_def sint_sbintrunc' signed_take_bit_int_eq_self)
  ultimately show ?thesis by simp
qed


lemma sint32_bounds: "- (2 ^ 31) \<le> sint (v :: 32 word) \<and> sint v < 2 ^ 31"
  using sint_ge[of v] sint_lt[of v] by simp

lemma round_double_sint: "round_double (of_int (sint (v :: 32 word))) = Finite (of_int (sint v))"
proof (rule round_double_of_int)
  have "\<bar>sint v\<bar> \<le> 2 ^ 31" using sint32_bounds[of v] by (simp add: abs_le_iff)
  also have "\<dots> < (2::int) ^ 53" by simp
  finally show "\<bar>sint v\<bar> < 2 ^ 53" .
qed

lemma scale_sample_identity:
  assumes "alpha c = Finite 0" "beta c = Finite 1"
  shows "scale_sample c e v = v"
proof -
  have m: "dmul (beta c) (double_of_int v) = Finite (of_int (sint v))"
    by (simp add: assms double_of_int_def round_double_sint del: of_int_sint)
  have a: "dadd (alpha c) (Finite (of_int (sint v))) = Finite (of_int (sint v))"
    by (simp add: assms round_double_sint del: of_int_sint)
  have "in_int_range (sint v)"
    using sint32_bounds[of v] by (simp add: in_int_range_def)
  moreover have "(word_of_int (sint v) :: 32 word) = v" by simp
  ultimately show ?thesis
    by (simp add: scale_sample_def m a round_half_even_of_int trunc_rat_of_int
          del: of_int_sint)
qed

lemma round_double_int_eq:
  "x = of_int k \<Longrightarrow> \<bar>k\<bar> < 2 ^ 53 \<Longrightarrow> round_double x = Finite (of_int k)"
  using round_double_of_int[of k] by simp

lemma scale_sample_int:
  assumes ab: "alpha c = Finite (of_int a)" "beta c = Finite (of_int b)"
    and small: "\<bar>b * sint v\<bar> < 2 ^ 53"
    and range: "in_int_range (a + b * sint v)"
  shows "scale_sample c e v = word_of_int (a + b * sint v)"
proof -
  define k where "k = a + b * sint v"
  have m: "dmul (beta c) (double_of_int v) = Finite (of_int (b * sint v))"
    unfolding ab double_of_int_def dmul.simps
    by (rule round_double_int_eq[OF _ small]) (simp del: of_int_sint)
  have "\<bar>k\<bar> \<le> 2 ^ 31"
    using range by (simp add: in_int_range_def abs_le_iff k_def)
  also have "\<dots> < (2::int) ^ 53" by simp
  finally have s: "\<bar>k\<bar> < 2 ^ 53" .
  have d: "dadd (alpha c) (Finite (of_int (b * sint v))) = Finite (of_int k)"
    unfolding ab dadd.simps
    by (rule round_double_int_eq[OF _ s]) (simp add: k_def del: of_int_sint)
  have "in_int_range k" using range by (simp add: k_def)
  then have "scale_sample c e v = word_of_int k"
    unfolding scale_sample_def m d rint.simps round_half_even_of_int
    by (simp add: trunc_rat_of_int)
  then show ?thesis by (simp only: k_def)
qed

lemma scale_sample_10_2:
  assumes "alpha c = Finite 10" "beta c = Finite 2"
  shows "scale_sample c e 1 = 12" "scale_sample c e 2 = 14" "scale_sample c e 3 = 16"
proof -
  have ab: "alpha c = Finite (of_int 10)" "beta c = Finite (of_int 2)"
    using assms by simp_all
  show "scale_sample c e 1 = 12"
    by (subst scale_sample_int[OF ab]) (simp_all add: in_int_range_def)
  show "scale_sample c e 2 = 14"
    by (subst scale_sample_int[OF ab]) (simp_all add: in_int_range_def)
  show "scale_sample c e 3 = 16"
    by (subst scale_sample_int[OF ab]) (simp_all add: in_int_range_def)
qed

lemma scale_record_samples_eq:
  assumes "eligible r" "wf_record r"
  shows "datasamples (fst (snd (scale_record c e a r))) = map (scale_sample c e) (datasamples r)"
proof -
  have "scale_loop (scale_sample c e) 0 (numsamples r) (datasamples r) =
      map (scale_sample c e) (datasamples r)"
    using assms(2) by (intro scale_loop_all) (simp add: wf_record_def)
  then show ?thesis
    by (simp add: scale_record_eligible[OF assms(1)] split: option.splits)
qed

section \<open>The sample transform\<close>

text \<open>
  Claim C1.  For an eligible record in the layout libmseed delivers, and any \<open>alpha\<close>
  and \<open>beta\<close>, the call replaces the buffer by the image of the per-sample map, so each
  new sample depends on the old sample at the same position only.  Whenever
  \<open>alpha + beta * v\<close>, computed in doubles, is finite and its nearest integer fits an
  \<^verbatim>\<open>int\<close>, the new sample is that nearest integer, at distance at most one half and
  even when the distance is exactly one half.  Samples \<open>[1, 2, 3]\<close> with
  \<open>alpha = 10\<close> and \<open>beta = 2\<close> become \<open>[12, 14, 16]\<close>.
\<close>

theorem scale_record_rescales:
  assumes "eligible r" "wf_record r"
  shows "datasamples (fst (snd (scale_record c e a r))) =
      map (\<lambda>v. int_of_double (cast_overflow e)
                 (rint (dadd (alpha c) (dmul (beta c) (double_of_int v))))) (datasamples r)
    \<and> (\<forall>v x. dadd (alpha c) (dmul (beta c) (double_of_int v)) = Finite x \<longrightarrow>
          in_int_range (round_half_even x) \<longrightarrow>
            sint (scale_sample c e v) = round_half_even x \<and>
            \<bar>of_int (round_half_even x) - x\<bar> \<le> 1 / 2 \<and>
            (\<bar>of_int (round_half_even x) - x\<bar> = 1 / 2 \<longrightarrow> even (round_half_even x)))
    \<and> (alpha c = Finite 10 \<and> beta c = Finite 2 \<and> datasamples r = [1, 2, 3] \<longrightarrow>
          datasamples (fst (snd (scale_record c e a r))) = [12, 14, 16])"
proof (intro conjI allI impI)
  have eq: "datasamples (fst (snd (scale_record c e a r))) = map (scale_sample c e) (datasamples r)"
    by (rule scale_record_samples_eq[OF assms])
  have "scale_sample c e = (\<lambda>v. int_of_double (cast_overflow e)
      (rint (dadd (alpha c) (dmul (beta c) (double_of_int v)))))"
    by (rule ext) (simp add: scale_sample_def)
  with eq show "datasamples (fst (snd (scale_record c e a r))) =
      map (\<lambda>v. int_of_double (cast_overflow e)
                 (rint (dadd (alpha c) (dmul (beta c) (double_of_int v))))) (datasamples r)"
    by simp
  show "datasamples (fst (snd (scale_record c e a r))) = [12, 14, 16]"
    if "alpha c = Finite 10 \<and> beta c = Finite 2 \<and> datasamples r = [1, 2, 3]"
    using that by (simp add: eq scale_sample_10_2)
next
  fix v x
  assume "dadd (alpha c) (dmul (beta c) (double_of_int v)) = Finite x"
    and "in_int_range (round_half_even x)"
  then show "sint (scale_sample c e v) = round_half_even x"
    by (rule scale_sample_in_range)
next
  fix x :: rat
  show "\<bar>of_int (round_half_even x) - x\<bar> \<le> 1 / 2"
    using round_half_even_near[of x] by simp
  show "even (round_half_even x)" if "\<bar>of_int (round_half_even x) - x\<bar> = 1 / 2"
    using round_half_even_near[of x] that by simp
qed

lemma ex_record_ok: "eligible ex_record \<and> wf_record ex_record"
  by (simp add: eligible_def wf_record_def ex_record_def)

theorem scale_record_rescales_witness:
  "eligible ex_record \<and> wf_record ex_record \<and>
   datasamples (fst (snd (scale_record ex_config ex_env True ex_record))) = [12, 14, 16]"
proof -
  have e: "eligible ex_record" and w: "wf_record ex_record"
    by (simp_all add: eligible_def wf_record_def ex_record_def)
  have c: "alpha ex_config = Finite 10 \<and> beta ex_config = Finite 2 \<and>
      datasamples ex_record = [1, 2, 3]"
    by (simp add: ex_config_def ex_record_def)
  from scale_record_rescales[OF e w, of ex_config ex_env True] c
  have "datasamples (fst (snd (scale_record ex_config ex_env True ex_record))) = [12, 14, 16]"
    by blast
  with e w show ?thesis by simp
qed

text \<open>Ties go to the even neighbour: with \<open>alpha = 1/2\<close> and \<open>beta = 1\<close> the samples
  \<open>[1, 2, 3]\<close> become \<open>[2, 2, 4]\<close>.\<close>

lemma round_double_halves:
  "round_double (3 / 2) = Finite (3 / 2)"
  "round_double (5 / 2) = Finite (5 / 2)"
  "round_double (7 / 2) = Finite (7 / 2)"
  using round_double_exact[of "3 / 2" 3 "- 1"] round_double_exact[of "5 / 2" 5 "- 1"]
    round_double_exact[of "7 / 2" 7 "- 1"]
  by (simp_all add: power_int_minus)

lemma round_half_even_halves:
  "round_half_even (3 / 2) = 2" "round_half_even (5 / 2) = 2" "round_half_even (7 / 2) = 4"
  by code_simp+

lemma ties_to_even_example:
  "datasamples (fst (snd (scale_record half_config ex_env True ex_record))) = [2, 2, 4]"
proof -
  have one: "round_double 1 = Finite 1" "round_double 2 = Finite 2" "round_double 3 = Finite 3"
    using round_double_of_int[of 1] round_double_of_int[of 2] round_double_of_int[of 3]
    by simp_all
  have "scale_sample half_config ex_env 1 = 2" "scale_sample half_config ex_env 2 = 2"
    "scale_sample half_config ex_env 3 = 4"
    by (simp_all add: scale_sample_def half_config_def double_of_int_def one
        round_double_halves round_half_even_halves trunc_rat_def in_int_range_def)
  then show ?thesis
    using scale_record_samples_eq[OF ex_record_ok[THEN conjunct1] ex_record_ok[THEN conjunct2],
        of half_config ex_env True]
    by (simp add: ex_record_def)
qed

lemma scale_record_buffer_length:
  "length (datasamples (fst (snd (scale_record c e a r)))) = length (datasamples r)"
proof (cases "eligible r")
  case False
  then show ?thesis by (simp add: scale_record_ineligible)
next
  case True
  show ?thesis
    by (cases "orient c") (simp_all add: scale_record_eligible[OF True] scale_loop_length)
qed

text \<open>
  Claim C2.  A record with \<open>samplecnt < 1\<close>, or a sample type other than \<open>i\<close>, or a
  sample rate equal to \<open>0.0\<close> makes the call return 0; the record comes back as it
  went in (buffer and channel included) and nothing reaches \<^verbatim>\<open>record_handler\<close>.
\<close>

theorem scale_record_skips:
  assumes "samplecnt r < 1 \<or> sampletype r \<noteq> CHR ''i'' \<or> samprate r = Finite 0"
  shows "fst (scale_record c e a r) = 0 \<and> fst (snd (scale_record c e a r)) = r \<and>
    datasamples (fst (snd (scale_record c e a r))) = datasamples r \<and>
    channel (fst (snd (scale_record c e a r))) = channel r \<and>
    snd (snd (scale_record c e a r)) = []"
proof -
  from assms have "\<not> eligible r" by (auto simp: eligible_def)
  then show ?thesis by (simp add: scale_record_ineligible)
qed

theorem scale_record_skips_witness:
  "sampletype float_record \<noteq> CHR ''i'' \<and>
   fst (scale_record ex_config ex_env True float_record) = 0 \<and>
   datasamples (fst (snd (scale_record ex_config ex_env True float_record))) = [1, 2, 3] \<and>
   channel (fst (snd (scale_record ex_config ex_env True float_record))) ! 2 = CHR ''Z'' \<and>
   snd (snd (scale_record ex_config ex_env True float_record)) = []"
proof -
  have t: "sampletype float_record \<noteq> CHR ''i''"
    by (simp add: float_record_def ex_record_def)
  then have h: "samplecnt float_record < 1 \<or> sampletype float_record \<noteq> CHR ''i'' \<or>
      samprate float_record = Finite 0"
    by simp
  from scale_record_skips[OF h, of ex_config ex_env True] t show ?thesis
    by (simp add: float_record_def ex_record_def)
qed

text \<open>
  Claim C7.  Whatever the configuration, and for every record in the layout libmseed
  delivers, the record the call leaves behind has the \<open>samplecnt\<close> and \<open>sampletype\<close>
  it had; it differs from the original in the contents of the sample buffer and in the
  character at index 2 of the channel code at most.
\<close>

theorem scale_record_frame:
  assumes "wf_record r"
  shows "samplecnt (fst (snd (scale_record c e a r))) = samplecnt r \<and>
   sampletype (fst (snd (scale_record c e a r))) = sampletype r \<and>
   fst (snd (scale_record c e a r)) =
     r\<lparr>channel := channel (fst (snd (scale_record c e a r))),
       datasamples := datasamples (fst (snd (scale_record c e a r)))\<rparr> \<and>
   length (datasamples (fst (snd (scale_record c e a r)))) = length (datasamples r) \<and>
   length (channel (fst (snd (scale_record c e a r)))) = length (channel r) \<and>
   (\<forall>i. i \<noteq> 2 \<longrightarrow> channel (fst (snd (scale_record c e a r))) ! i = channel r ! i)"
proof (cases "eligible r")
  case False
  then show ?thesis by (simp add: scale_record_ineligible)
next
  case True
  show ?thesis
    by (cases "orient c") (simp_all add: scale_record_eligible[OF True] scale_loop_length)
qed

theorem scale_record_frame_witness:
  "wf_record ex_record \<and>
   samplecnt (fst (snd (scale_record ex_config ex_env True ex_record))) = 3 \<and>
   sampletype (fst (snd (scale_record ex_config ex_env True ex_record))) = CHR ''i'' \<and>
   channel (fst (snd (scale_record ex_config ex_env True ex_record))) ! 0 = CHR ''B'' \<and>
   channel (fst (snd (scale_record ex_config ex_env True ex_record))) ! 1 = CHR ''H''"
proof -
  have w: "wf_record ex_record" by (simp add: wf_record_def ex_record_def)
  from scale_record_frame[OF w, of ex_config ex_env True] w show ?thesis
    by (simp add: ex_record_def)
qed

text \<open>
  Claim C8.  With an orientation override configured (\<^verbatim>\<open>orient\<close> not \<^verbatim>\<open>NULL\<close>), the
  character at index 2 of the channel code of an eligible record is, after the call,
  the character \<^verbatim>\<open>*orient\<close>, whatever it was before.
\<close>

theorem scale_record_orientation:
  assumes "orient c = Some s" "eligible r" "wf_record r"
  shows "channel (fst (snd (scale_record c e a r))) ! 2 = deref s"
  using assms by (simp add: scale_record_eligible wf_record_def)

theorem scale_record_orientation_witness:
  "orient ex_config = Some ''T'' \<and> eligible ex_record \<and> wf_record ex_record \<and>
   channel ex_record ! 2 = CHR ''Z'' \<and>
   channel (fst (snd (scale_record ex_config ex_env True ex_record))) ! 2 = CHR ''T''"
proof -
  have o: "orient ex_config = Some ''T''" by (simp add: ex_config_def)
  have e: "eligible ex_record" and w: "wf_record ex_record"
    by (simp_all add: eligible_def wf_record_def ex_record_def)
  from scale_record_orientation[OF o e w, of ex_env True] o e w show ?thesis
    by (simp add: deref_def ex_record_def)
qed

text \<open>
  Claim C9.  With \<open>alpha = 0\<close> and \<open>beta = 1\<close> the call leaves every sample of an
  eligible record as it was, for every 32-bit value; a configured orientation is
  written all the same.
\<close>

theorem scale_record_unit:
  assumes "eligible r" "wf_record r" "alpha c = Finite 0" "beta c = Finite 1"
  shows "datasamples (fst (snd (scale_record c e a r))) = datasamples r \<and>
    (\<forall>s. orient c = Some s \<longrightarrow> channel (fst (snd (scale_record c e a r))) ! 2 = deref s)"
proof -
  have "scale_sample c e = (\<lambda>v. v)"
    by (rule ext) (rule scale_sample_identity[OF assms(3,4)])
  then have "datasamples (fst (snd (scale_record c e a r))) = datasamples r"
    by (simp add: scale_record_samples_eq[OF assms(1,2)])
  moreover have "channel (fst (snd (scale_record c e a r))) ! 2 = deref s"
    if "orient c = Some s" for s
    using that assms(1,2) by (simp add: scale_record_eligible wf_record_def)
  ultimately show ?thesis by blast
qed

theorem scale_record_unit_witness:
  "eligible wide_record \<and> wf_record wide_record \<and>
   alpha unit_config = Finite 0 \<and> beta unit_config = Finite 1 \<and>
   datasamples (fst (snd (scale_record unit_config ex_env True wide_record))) =
     [0, - 5, 2147483647, - 2147483648] \<and>
   channel (fst (snd (scale_record unit_config ex_env True wide_record))) ! 2 = CHR ''E''"
proof -
  have e: "eligible wide_record" and w: "wf_record wide_record"
    by (simp_all add: eligible_def wf_record_def wide_record_def ex_record_def)
  have ab: "alpha unit_config = Finite 0" "beta unit_config = Finite 1"
    and o: "orient unit_config = Some ''E''"
    by (simp_all add: unit_config_def)
  from scale_record_unit[OF e w ab, of ex_env True] o e w ab show ?thesis
    by (simp add: deref_def wide_record_def)
qed

section \<open>The result of \<^verbatim>\<open>scale_record\<close>\<close>

text \<open>
  Claim C4.  Provided the encoder reports in \<^verbatim>\<open>psamples\<close> a count between 0 and the
  number of samples of the record it was given, the call returns \<open>-1\<close> exactly when
  the record has passed the eligibility tests and \<^verbatim>\<open>mst_initgroup\<close> has returned no
  group; when the group is there, the result is the count the encoder reported; and a
  record that fails the tests gives 0.
\<close>

theorem scale_record_result:
  assumes "wf_record r"
    and "0 \<le> snd (packgroup e (fst (snd (scale_record c e a r))))"
    and "snd (packgroup e (fst (snd (scale_record c e a r)))) \<le>
      numsamples (fst (snd (scale_record c e a r)))"
  shows "(fst (scale_record c e a r) = - 1 \<longleftrightarrow> eligible r \<and> \<not> a) \<and>
    (eligible r \<and> a \<longrightarrow>
       fst (scale_record c e a r) = snd (packgroup e (fst (snd (scale_record c e a r))))) \<and>
    (\<not> eligible r \<longrightarrow> fst (scale_record c e a r) = 0)"
proof (cases "eligible r")
  case False
  then show ?thesis by (simp add: scale_record_ineligible)
next
  case True
  define r2 where "r2 = fst (snd (scale_record c e a r))"
  obtain blocks ps where p: "packgroup e r2 = (blocks, ps)" by (cases "packgroup e r2")
  have "numsamples r2 = numsamples r"
    unfolding r2_def scale_record_eligible[OF True] by (simp split: option.splits)
  also have "\<dots> < 2 ^ 31" using assms(1) by (simp add: wf_record_def)
  finally have n: "numsamples r2 < 2 ^ 31" .
  have ps: "0 \<le> ps" "ps < 2 ^ 31" using assms(2,3) p n by (simp_all flip: r2_def)
  have il: "int_of_long ps = ps"
    using ps by (simp add: int_of_long_def sint_sbintrunc' signed_take_bit_int_eq_self)
  have "fst (scale_record c e a r) = (if a then int_of_long ps else - 1)"
    using True p unfolding r2_def scale_record_eligible[OF True]
    by (simp add: scale_record_def eligible_def Let_def split: option.splits)
  then have ret: "fst (scale_record c e a r) = (if a then ps else - 1)"
    by (simp only: il)
  have pk: "snd (packgroup e (fst (snd (scale_record c e a r)))) = ps"
    using p by (simp add: r2_def)
  show ?thesis
    unfolding ret pk using True ps by simp
qed

lemma scale_record_numsamples:
  "numsamples (fst (snd (scale_record c e a r))) = numsamples r"
proof (cases "eligible r")
  case False
  then show ?thesis by (simp add: scale_record_ineligible)
next
  case True
  show ?thesis
    by (cases "orient c") (simp_all add: scale_record_eligible[OF True])
qed

theorem scale_record_result_witness:
  "wf_record ex_record \<and> wf_record float_record \<and>
   fst (scale_record ex_config ex_env True ex_record) = 3 \<and>
   fst (scale_record ex_config ex_env False ex_record) = - 1 \<and>
   fst (scale_record ex_config ex_env False float_record) = 0"
proof -
  have p: "snd (packgroup ex_env q) = int (length (datasamples q))" for q
    by (simp add: ex_env_def)
  have w: "wf_record ex_record" "wf_record float_record"
    by (simp_all add: wf_record_def float_record_def ex_record_def)
  have e: "eligible ex_record" "\<not> eligible float_record"
    by (simp_all add: eligible_def float_record_def ex_record_def)
  have l: "length (datasamples (fst (snd (scale_record ex_config ex_env a ex_record)))) = 3"
    "length (datasamples (fst (snd (scale_record ex_config ex_env a float_record)))) = 3" for a
    by (simp_all add: scale_record_buffer_length float_record_def ex_record_def)
  have n: "numsamples (fst (snd (scale_record ex_config ex_env a ex_record))) = 3"
    "numsamples (fst (snd (scale_record ex_config ex_env a float_record))) = 3" for a
    by (simp_all add: scale_record_numsamples float_record_def ex_record_def)
  show ?thesis
    using scale_record_result[OF w(1), of ex_env ex_config True]
      scale_record_result[OF w(1), of ex_env ex_config False]
      scale_record_result[OF w(2), of ex_env ex_config False] e w
    by (simp add: p l n)
qed

section \<open>The batch program and ineligible records\<close>

text \<open>
  Claim C3 says that the batch program repacks an ineligible record and writes it to
  standard output unscaled.  It does not: for a record of sample type \<open>f\<close>, for which
  the encoder would deliver a block, the program writes nothing.
\<close>

theorem msscale_drops_float_record:
  "fst (packgroup ex_env float_record) = [[0x30, 0x30]] \<and>
   msscale_main ex_config ex_env [[(float_record, True)]] = []"
  by (simp add: msscale_main_def scale_record_def float_record_def ex_record_def ex_env_def)

text \<open>
  Claim C3, amended.  In the batch program an ineligible record is neither scaled nor
  repacked: \<^verbatim>\<open>scale_record\<close> returns 0 before the trace group is built, nothing is
  written to standard output for the record, and the loop goes on with the next record.
\<close>

theorem msscale_skips_ineligible:
  assumes "\<not> eligible r"
  shows "scale_record c e a r = (0, r, []) \<and>
    msscale_input c e ((r, a) # rest) = msscale_input c e rest \<and>
    msscale_main c e (((r, a) # rest) # inputs) = msscale_main c e (rest # inputs)"
  using assms by (simp add: scale_record_ineligible msscale_main_def)

theorem msscale_skips_ineligible_witness:
  "\<not> eligible float_record \<and>
   scale_record ex_config ex_env True float_record = (0, float_record, []) \<and>
   msscale_main ex_config ex_env [[(float_record, True), (float_record, True)]] = []"
proof -
  have n: "\<not> eligible float_record"
    by (simp add: eligible_def float_record_def ex_record_def)
  from msscale_skips_ineligible[OF n, of ex_config ex_env True "[(float_record, True)]" "[]"]
    msscale_skips_ineligible[OF n, of ex_config ex_env True "[]" "[]"] n
  show ?thesis by (simp add: msscale_main_def)
qed

section \<open>The collection loop: checkpoints and unpack failures\<close>

lemma save_state_msr: "msr (save_state c st) = msr st"
  by (simp add: save_state_def)

lemma save_state_handled: "handled (save_state c st) = handled st"
  by (simp add: save_state_def)

lemma save_state_count:
  assumes "statefile c \<noteq> None" "1 \<le> stateint c" "0 \<le> packetcnt st" "packetcnt st < stateint c"
  shows "packetcnt (save_state c st) = (packetcnt st + 1) mod stateint c"
    and "int (saves (save_state c st)) = int (saves st) + (packetcnt st + 1) div stateint c"
proof -
  show "packetcnt (save_state c st) = (packetcnt st + 1) mod stateint c"
  proof (cases "packetcnt st + 1 \<ge> stateint c")
    case True
    with assms have "packetcnt st + 1 = stateint c" by simp
    with assms True show ?thesis by (simp add: save_state_def)
  next
    case False
    with assms show ?thesis by (simp add: save_state_def)
  qed
  show "int (saves (save_state c st)) = int (saves st) + (packetcnt st + 1) div stateint c"
  proof (cases "packetcnt st + 1 \<ge> stateint c")
    case True
    with assms have "packetcnt st + 1 = stateint c" by simp
    with assms True show ?thesis by (simp add: save_state_def)
  next
    case False
    with assms show ?thesis by (simp add: save_state_def)
  qed
qed

lemma sl_step_running:
  assumes "sl_step c e pk st = (Running, st')"
  shows "\<exists>st0. st' = save_state c st0 \<and> packetcnt st0 = packetcnt st \<and>
    saves st0 = saves st \<and> msr st0 = None"
  using assms
  by (auto simp: sl_step_def Let_def msr_free_def split: if_splits option.splits prod.splits)

lemma sl_loop_Cons_running:
  assumes "sl_loop c e (pk # pks) st = (Running, st')"
  obtains st1 where "sl_step c e pk st = (Running, st1)" "sl_loop c e pks st1 = (Running, st')"
  using assms by (auto split: prod.splits status.splits)

lemma sl_loop_counts:
  assumes "statefile c \<noteq> None" "1 \<le> stateint c"
  shows "sl_loop c e pks st = (Running, st') \<Longrightarrow> 0 \<le> packetcnt st \<Longrightarrow>
    packetcnt st < stateint c \<Longrightarrow>
    packetcnt st' = (packetcnt st + int (length pks)) mod stateint c \<and>
    int (saves st') = int (saves st) + (packetcnt st + int (length pks)) div stateint c"
proof (induction pks arbitrary: st)
  case Nil
  then show ?case by simp
next
  case (Cons pk pks)
  from Cons.prems(1) obtain st1 where s: "sl_step c e pk st = (Running, st1)"
    and l: "sl_loop c e pks st1 = (Running, st')"
    by (rule sl_loop_Cons_running)
  from sl_step_running[OF s] obtain st0 where st0: "st1 = save_state c st0"
    "packetcnt st0 = packetcnt st" "saves st0 = saves st" by blast
  let ?N = "stateint c" and ?p = "packetcnt st"
  have N: "0 < ?N" using assms(2) by simp
  have p1: "packetcnt st1 = (?p + 1) mod ?N"
    and s1: "int (saves st1) = int (saves st) + (?p + 1) div ?N"
    using save_state_count[OF assms, of st0] Cons.prems(2,3) by (simp_all add: st0)
  have b: "0 \<le> packetcnt st1" "packetcnt st1 < ?N" using N by (simp_all add: p1)
  from Cons.IH[OF l b]
  have IH: "packetcnt st' = ((?p + 1) mod ?N + int (length pks)) mod ?N"
    "int (saves st') = int (saves st) + (?p + 1) div ?N + ((?p + 1) mod ?N + int (length pks)) div ?N"
    by (simp_all add: p1 s1)
  have len: "?p + int (length (pk # pks)) = (?p + 1) + int (length pks)" by simp
  have m: "((?p + 1) mod ?N + int (length pks)) mod ?N = ((?p + 1) + int (length pks)) mod ?N"
    by (simp add: mod_add_left_eq)
  have "(?p + 1) + int (length pks) = ((?p + 1) mod ?N + int (length pks)) + ?N * ((?p + 1) div ?N)"
    by simp
  then have "((?p + 1) + int (length pks)) div ?N =
      ((?p + 1) mod ?N + int (length pks) + ?N * ((?p + 1) div ?N)) div ?N"
    by simp
  also have "\<dots> = ((?p + 1) mod ?N + int (length pks)) div ?N + (?p + 1) div ?N"
    using N by (subst div_mult_self2) simp_all
  finally have d: "((?p + 1) + int (length pks)) div ?N =
      ((?p + 1) mod ?N + int (length pks)) div ?N + (?p + 1) div ?N" .
  show ?case unfolding len IH using m d by simp
qed

lemma sl_loop_msr:
  "sl_loop c e pks st = (Running, st') \<Longrightarrow> msr st = None \<Longrightarrow> msr st' = None"
proof (induction pks arbitrary: st)
  case Nil
  then show ?case by simp
next
  case (Cons pk pks)
  from Cons.prems(1) obtain st1 where s: "sl_step c e pk st = (Running, st1)"
    and l: "sl_loop c e pks st1 = (Running, st')"
    by (rule sl_loop_Cons_running)
  from sl_step_running[OF s] have "msr st1 = None" by (auto simp: save_state_msr)
  with Cons.IH[OF l] show ?case by simp
qed

lemma scale_record_alloc:
  assumes "eligible r"
  shows "\<exists>r2. scale_record c e True r =
      (int_of_long (snd (packgroup e r2)), r2, fst (packgroup e r2)) \<and>
    length (datasamples r2) = length (datasamples r)"
proof -
  define r2 where "r2 = fst (snd (scale_record c e True r))"
  have "scale_record c e True r = (int_of_long (snd (packgroup e r2)), r2, fst (packgroup e r2))"
    using assms unfolding r2_def scale_record_eligible[OF assms]
    by (simp add: scale_record_def eligible_def Let_def split: option.splits prod.splits)
  moreover have "length (datasamples r2) = length (datasamples r)"
    unfolding r2_def by (rule scale_record_buffer_length)
  ultimately show ?thesis by blast
qed

lemma int_of_long_3: "int_of_long 3 = 3"
  by (simp add: int_of_long_def)

lemma data_packet_step:
  "sl_step ex_slconfig ex_env data_packet st =
     (Running, save_state ex_slconfig (st\<lparr>msr := None, handled := handled st @ [[0x30, 0x30]]\<rparr>))"
proof -
  have "eligible ex_record" by (simp add: eligible_def ex_record_def)
  from scale_record_alloc[OF this, of ex_slconfig ex_env]
  obtain r2 where "scale_record ex_slconfig ex_env True ex_record = (3, r2, [[0x30, 0x30]])"
    by (auto simp: ex_env_def ex_record_def int_of_long_3)
  then show ?thesis
    by (simp add: sl_step_def scale_arg_def scale_record_ptr_def data_packet_def msr_free_def)
qed

lemma info_packet_step:
  "sl_step c e info_packet st = (Running, save_state c (st\<lparr>msr := None\<rparr>))"
  by (simp add: sl_step_def scale_arg_def info_packet_def msr_free_def)

lemma bad_packet_step:
  "msr st = None \<Longrightarrow> sl_step c e bad_packet st = (Crashed, st)"
  by (simp add: sl_step_def scale_arg_def scale_record_ptr_def bad_packet_def)

lemma save_state_ex:
  "save_state ex_slconfig st =
     (if 1 \<le> packetcnt st then st\<lparr>packetcnt := 0, saves := saves st + 1\<rparr>
      else st\<lparr>packetcnt := packetcnt st + 1\<rparr>)"
  by (simp add: save_state_def ex_slconfig_def)

lemma replicate_5: "replicate 5 x = [x, x, x, x, x]"
  by (simp add: numeral_eq_Suc)

lemma five_data_packets:
  "sl_loop ex_slconfig ex_env (replicate 5 data_packet) sl_init = (Running, after_five)"
  by (simp add: replicate_5 data_packet_step save_state_ex sl_init_def after_five_def)

lemma sl_loop_append:
  "sl_loop c e (pks @ qs) st =
     (case sl_loop c e pks st of (Running, st') \<Rightarrow> sl_loop c e qs st' | other \<Rightarrow> other)"
  by (induction pks arbitrary: st) (auto split: prod.splits status.splits)

text \<open>
  Claim C5 says that the checkpoint is written once per \<open>N\<close> data records and that
  packets which are not data do not advance the interval counter.  They do: with
  interval 2, one packet that is not data leaves the counter at 1, and two such packets
  cause a checkpoint although no data record has been processed.
\<close>

theorem checkpoint_counts_every_packet:
  "\<not> is_data info_packet \<and> stateint ex_slconfig = 2 \<and>
   packetcnt (snd (sl_step ex_slconfig ex_env info_packet sl_init)) = 1 \<and>
   saves (snd (sl_loop ex_slconfig ex_env [info_packet, info_packet] sl_init)) = 1"
proof -
  have "\<not> is_data info_packet" by (simp add: info_packet_def)
  moreover have "stateint ex_slconfig = 2" by (simp add: ex_slconfig_def)
  moreover have "packetcnt (snd (sl_step ex_slconfig ex_env info_packet sl_init)) = 1"
    by (simp add: info_packet_step save_state_ex sl_init_def)
  moreover have "saves (snd (sl_loop ex_slconfig ex_env [info_packet, info_packet] sl_init)) = 1"
    by (simp add: info_packet_step save_state_ex sl_init_def)
  ultimately show ?thesis by blast
qed

text \<open>
  Claim C5, amended.  With a state file configured and an interval \<open>N \<ge> 1\<close>, the
  checkpoint is written once per \<open>N\<close> collected packets that pass through the loop
  body, whatever their type: after \<open>k\<close> packets it has been written \<open>k div N\<close> times,
  and once more after the loop when the terminate flag is set.  With interval 2 and five
  data records that is twice during the run and once at shutdown.
\<close>

theorem checkpoint_interval:
  assumes "statefile c \<noteq> None" "1 \<le> stateint c"
    and "sl_loop c e pks sl_init = (Running, st)"
  shows "int (saves st) = int (length pks) div stateint c \<and>
    packetcnt st = int (length pks) mod stateint c \<and>
    slscale_main c e pks True = (Running, st\<lparr>saves := saves st + 1\<rparr>) \<and>
    slscale_main c e pks False = (Running, st)"
proof -
  have "packetcnt sl_init = 0" "saves sl_init = 0" by (simp_all add: sl_init_def)
  with sl_loop_counts[OF assms(1,2) assms(3)] assms(2)
  have "packetcnt st = int (length pks) mod stateint c"
    "int (saves st) = int (length pks) div stateint c" by simp_all
  then show ?thesis using assms(1,3) by (simp add: slscale_main_def)
qed

theorem checkpoint_interval_witness:
  "statefile ex_slconfig \<noteq> None \<and> 1 \<le> stateint ex_slconfig \<and>
   sl_loop ex_slconfig ex_env (replicate 5 data_packet) sl_init = (Running, after_five) \<and>
   saves after_five = 2 \<and>
   saves (snd (slscale_main ex_slconfig ex_env (replicate 5 data_packet) True)) = 3"
proof -
  have c: "statefile ex_slconfig \<noteq> None" "1 \<le> stateint ex_slconfig"
    by (simp_all add: ex_slconfig_def)
  from checkpoint_interval[OF c five_data_packets] c five_data_packets
  show ?thesis by (simp add: after_five_def)
qed

text \<open>
  Claim C10 says that after a failed \<^verbatim>\<open>msr_unpack\<close> the record of the previous packet
  may be handed to \<^verbatim>\<open>scale_record\<close> again.  It is not: \<^verbatim>\<open>msr_free\<close> has reset the
  pointer at the end of the previous iteration, so after a packet that was unpacked,
  scaled and emitted, a packet that fails to unpack finds a null pointer, and the
  record of the first packet has been emitted once.
\<close>

theorem stale_record_not_reused:
  "sl_loop ex_slconfig ex_env [data_packet] sl_init = (Running, after_one) \<and>
   payload data_packet = Unpack_ok ex_record \<and>
   is_data bad_packet \<and> payload bad_packet = Unpack_failed_early \<and>
   scale_arg bad_packet after_one = None \<and>
   sl_loop ex_slconfig ex_env [data_packet, bad_packet] sl_init = (Crashed, after_one)"
proof -
  have 1: "sl_step ex_slconfig ex_env data_packet sl_init = (Running, after_one)"
    by (simp add: data_packet_step save_state_ex sl_init_def after_one_def)
  have 2: "sl_step ex_slconfig ex_env bad_packet after_one = (Crashed, after_one)"
    by (rule bad_packet_step) (simp add: after_one_def)
  have 3: "scale_arg bad_packet after_one = None"
    by (simp add: scale_arg_def bad_packet_def after_one_def)
  show ?thesis using 1 2 3 by (simp add: data_packet_def bad_packet_def)
qed

text \<open>
  Claim C10, amended.  When \<^verbatim>\<open>msr_unpack\<close> fails on a collected data packet, the
  packet is not skipped and \<^verbatim>\<open>scale_record\<close> is still called, with the pointer
  \<^verbatim>\<open>msr_unpack\<close> has left: the null pointer, in the first iteration as in any later one,
  when the failure came before a record was stored, and then the dereference faults and
  ends the run; or the partly filled record of this very packet.
\<close>

theorem unpack_failure_not_skipped:
  assumes "sl_loop c e pks sl_init = (Running, st)" "is_data pk"
  shows "(payload pk = Unpack_failed_early \<longrightarrow>
       scale_arg pk st = None \<and> sl_step c e pk st = (Crashed, st) \<and>
       sl_loop c e (pks @ pk # rest) sl_init = (Crashed, st)) \<and>
    (\<forall>r. payload pk = Unpack_failed_late r \<longrightarrow>
       scale_arg pk st = Some r \<and>
       handled (snd (sl_step c e pk st)) = handled st @ snd (snd (scale_record c e (alloc_ok pk) r)))"
proof -
  have n: "msr st = None"
    using sl_loop_msr[OF assms(1)] by (simp add: sl_init_def)
  have early: "scale_arg pk st = None \<and> sl_step c e pk st = (Crashed, st) \<and>
      sl_loop c e (pks @ pk # rest) sl_init = (Crashed, st)"
    if "payload pk = Unpack_failed_early"
  proof -
    have a: "scale_arg pk st = None" using that n by (simp add: scale_arg_def)
    have s: "sl_step c e pk st = (Crashed, st)"
      using a assms(2) n by (simp add: sl_step_def scale_record_ptr_def)
    show ?thesis using a s assms(1) by (simp add: sl_loop_append)
  qed
  have late: "scale_arg pk st = Some r \<and>
      handled (snd (sl_step c e pk st)) = handled st @ snd (snd (scale_record c e (alloc_ok pk) r))"
    if "payload pk = Unpack_failed_late r" for r
  proof -
    have a: "scale_arg pk st = Some r" using that by (simp add: scale_arg_def)
    show ?thesis
      using a assms(2)
      by (simp add: sl_step_def scale_record_ptr_def save_state_handled Let_def
            split: prod.splits)
  qed
  from early late show ?thesis by blast
qed

theorem unpack_failure_not_skipped_witness:
  "sl_loop ex_slconfig ex_env [data_packet] sl_init = (Running, after_one) \<and>
   is_data bad_packet \<and> payload bad_packet = Unpack_failed_early \<and>
   sl_step ex_slconfig ex_env bad_packet after_one = (Crashed, after_one) \<and>
   sl_loop ex_slconfig ex_env ([data_packet] @ bad_packet # [data_packet]) sl_init =
     (Crashed, after_one)"
proof -
  have 1: "sl_loop ex_slconfig ex_env [data_packet] sl_init = (Running, after_one)"
    by (simp add: data_packet_step save_state_ex sl_init_def after_one_def)
  have 2: "is_data bad_packet" "payload bad_packet = Unpack_failed_early"
    by (simp_all add: bad_packet_def)
  from unpack_failure_not_skipped[OF 1 2(1), of "[data_packet]"] 1 2
  show ?thesis by simp
qed

section \<open>Forwarding with reconnect\<close>

lemma dl_write_loop_failing:
  "failing a \<Longrightarrow> dl_write_loop (a # as) =
     (reconnect_round a @ fst (dl_write_loop as), snd (dl_write_loop as))"
  by (simp add: failing_def reconnect_round_def Let_def split: prod.splits)

lemma dl_write_loop_prefix:
  "\<forall>p\<in>set pre. failing p \<Longrightarrow> dl_write_loop (pre @ rest) =
     (concat (map reconnect_round pre) @ fst (dl_write_loop rest), snd (dl_write_loop rest))"
proof (induction pre)
  case Nil
  then show ?case by simp
next
  case (Cons p pre)
  then have "failing p" and "\<forall>q\<in>set pre. failing q" by simp_all
  then show ?case
    by (simp add: dl_write_loop_failing Cons.IH del: dl_write_loop.simps)
qed

text \<open>
  Claim C6.  In forwarding mode, after any number of rounds in which the write failed
  and no shutdown was seen, each of them a failed write, a disconnect if the link was
  up, a reconnect, and a sleep of 10 seconds if the reconnect failed: a successful write
  ends the loop with the record delivered; a failed write whose round sees the shutdown
  flag ends the loop after that round with the record abandoned and no further write;
  and as long as neither happens the loop is still retrying.
\<close>

theorem record_handler_retries:
  assumes "\<forall>p\<in>set pre. failing p"
  shows "(write_ok a \<longrightarrow>
       record_handler (Some d) True (pre @ a # rest) =
         (concat (map reconnect_round pre) @ [Dl_write], Delivered)) \<and>
    (\<not> write_ok a \<and> terminate_seen a \<longrightarrow>
       record_handler (Some d) True (pre @ a # rest) =
         (concat (map reconnect_round (pre @ [a])), Abandoned)) \<and>
    record_handler (Some d) True pre = (concat (map reconnect_round pre), Retrying)"
proof (intro conjI impI)
  assume "write_ok a"
  then have "dl_write_loop (a # rest) = ([Dl_write], Delivered)" by simp
  then show "record_handler (Some d) True (pre @ a # rest) =
      (concat (map reconnect_round pre) @ [Dl_write], Delivered)"
    by (simp add: record_handler_def dl_write_loop_prefix[OF assms] del: dl_write_loop.simps)
next
  assume "\<not> write_ok a \<and> terminate_seen a"
  then have "dl_write_loop (a # rest) = (reconnect_round a, Abandoned)"
    by (simp add: reconnect_round_def Let_def)
  then show "record_handler (Some d) True (pre @ a # rest) =
      (concat (map reconnect_round (pre @ [a])), Abandoned)"
    by (simp add: record_handler_def dl_write_loop_prefix[OF assms] del: dl_write_loop.simps)
next
  show "record_handler (Some d) True pre = (concat (map reconnect_round pre), Retrying)"
    using dl_write_loop_prefix[OF assms, of "[]"] by (simp add: record_handler_def)
qed

theorem record_handler_retries_witness:
  "failing failed \<and> write_ok succeeded \<and>
   \<not> write_ok interrupted \<and> terminate_seen interrupted \<and>
   record_handler (Some '':16000'') True [failed, succeeded] =
     ([Dl_write, Dl_disconnect, Dl_connect, Sleep 10, Dl_write], Delivered) \<and>
   record_handler (Some '':16000'') True [failed, interrupted, succeeded] =
     ([Dl_write, Dl_disconnect, Dl_connect, Sleep 10, Dl_write, Dl_connect, Sleep 10], Abandoned) \<and>
   record_handler (Some '':16000'') True [failed] =
     ([Dl_write, Dl_disconnect, Dl_connect, Sleep 10], Retrying)"
proof -
  have ff: "failing failed" by (simp add: failing_def failed_def)
  then have f: "\<forall>p\<in>set [failed]. failing p" by simp
  have s: "write_ok succeeded" by (simp add: succeeded_def)
  have i: "\<not> write_ok interrupted \<and> terminate_seen interrupted" by (simp add: interrupted_def)
  have r: "reconnect_round failed = [Dl_write, Dl_disconnect, Dl_connect, Sleep 10]"
    "reconnect_round interrupted = [Dl_write, Dl_connect, Sleep 10]"
    by (simp_all add: reconnect_round_def failed_def interrupted_def)
  from record_handler_retries[OF f, of succeeded "'':16000''" "[]"]
    record_handler_retries[OF f, of interrupted "'':16000''" "[succeeded]"] ff s i
  show ?thesis by (simp add: r)
qed

end
